theory Spec2Isabelle
  imports Main
begin

section \<open>Data model of the navigation router\<close>

text \<open>
  The router of \<^verbatim>\<open>createRouter\<close> works on values declared in sibling modules
  (\<^verbatim>\<open>./url\<close>, \<^verbatim>\<open>./route\<close>, \<^verbatim>\<open>./router-config\<close>, \<^verbatim>\<open>./route-matcher\<close>). Only the
  fields the router itself reads are fixed here; the matcher and the default Url are
  parameters of every definition that needs them.
\<close>

text \<open>
  Modelled from the spec: the \<^verbatim>\<open>Url\<close> value type of \<^verbatim>\<open>./url\<close>, an opaque path plus
  query representation compared by structural equality. The router reads \<^verbatim>\<open>url.path\<close>.
\<close>

record Url =
  path :: "string list"
  queryParams :: "(string \<times> string) list"

text \<open>
  Modelled from the spec: a \<^verbatim>\<open>Route\<close> of \<^verbatim>\<open>./route\<close>, a matched instance holding the
  id of its originating config, the resolved parameters and the data payload. The
  router reads \<^verbatim>\<open>route.routeConfigId\<close>.
\<close>

record 'd Route =
  routeConfigId :: int
  params :: "(string \<times> string) list"
  data :: 'd

text \<open>A hook that throws: the thrown value is carried as a message.\<close>

datatype HookError = Thrown string

text \<open>
  The four actions of \<^verbatim>\<open>createActions\<close> with their payloads, and every other action
  of the store (\<open>Other\<close>), which dispatch hooks may return as well.
\<close>

datatype ('d, 'a) Action =
    Navigate Url
  | InterceptLeaveRedirect Url
  | InterceptEnterRedirect Url
  | NavigationComplete Url "'d Route list"
  | Other 'a

record 'd RouterState =
  url :: Url
  routes :: "'d Route list"

text \<open>
  The store as the hooks and the pipeline read it: the router's slice, and the slices
  of the rest of the application.
\<close>

record ('d, 'x) Store =
  routerSlice :: "'d RouterState"
  otherSlices :: 'x

text \<open>
  Modelled from the spec: the hook types of \<^verbatim>\<open>./router-config\<close>. A guard
  (\<^verbatim>\<open>interceptLeave\<close>, \<^verbatim>\<open>interceptEnter\<close>) returns \<^verbatim>\<open>boolean | Url\<close>, a dispatch hook
  (\<^verbatim>\<open>dispatchOnLeave\<close>, \<^verbatim>\<open>dispatchOnEnter\<close>) returns an action; both are called with
  \<^verbatim>\<open>(store, prevUrl, route)\<close>, all four are optional, and any of them may throw. A
  hook is modelled by what it answers for the store state it is called on; it
  dispatches nothing itself.
\<close>

datatype GuardResult = GBool bool | GUrl Url

type_synonym ('d, 'x) Guard =
  "('d, 'x) Store \<Rightarrow> Url \<Rightarrow> 'd Route \<Rightarrow> HookError + GuardResult"

type_synonym ('d, 'a, 'x) Dispatcher =
  "('d, 'x) Store \<Rightarrow> Url \<Rightarrow> 'd Route \<Rightarrow> HookError + ('d, 'a) Action"

record ('d, 'a, 'x) RouteConfig =
  interceptLeave :: "('d, 'x) Guard option"
  interceptEnter :: "('d, 'x) Guard option"
  dispatchOnLeave :: "('d, 'a, 'x) Dispatcher option"
  dispatchOnEnter :: "('d, 'a, 'x) Dispatcher option"

text \<open>
  The compiled \<^verbatim>\<open>RouteMatcher\<close>, taken as a parameter: its \<^verbatim>\<open>match\<close> and its
  \<^verbatim>\<open>getRouteConfig\<close>, where \<open>None\<close> is \<^verbatim>\<open>undefined\<close>.
\<close>

record ('d, 'a, 'x) RouteMatcher =
  match :: "string list \<Rightarrow> 'd Route list"
  getRouteConfig :: "int \<Rightarrow> ('d, 'a, 'x) RouteConfig option"

section \<open>The reducer\<close>

text \<open>
  \<^verbatim>\<open>createReducer(routerSlice, { url: createUrl(), routes: [] })\<close>: the initial state,
  with the default Url \<^verbatim>\<open>createUrl()\<close> as a parameter.
\<close>

definition initialState :: "Url \<Rightarrow> 'd RouterState" where
  "initialState createUrl = \<lparr>url = createUrl, routes = []\<rparr>"

text \<open>
  The only handler added to the reducer is the one for \<^verbatim>\<open>NavigationComplete\<close>, which
  assigns both fields from the payload; an action with no handler leaves the state as
  it is.
\<close>

fun routerReducer :: "'d RouterState \<Rightarrow> ('d, 'a) Action \<Rightarrow> 'd RouterState" where
  "routerReducer state (NavigationComplete u rs) = state\<lparr>url := u, routes := rs\<rparr>"
| "routerReducer state (Navigate u) = state"
| "routerReducer state (InterceptLeaveRedirect u) = state"
| "routerReducer state (InterceptEnterRedirect u) = state"
| "routerReducer state (Other a) = state"

section \<open>The navigation pipeline\<close>

text \<open>
  \<^verbatim>\<open>filterActions([Navigate, InterceptLeaveRedirect, InterceptEnterRedirect])\<close> and the
  \<^verbatim>\<open>action.payload.url\<close> of an action that passes it.
\<close>

fun triggerUrl :: "('d, 'a) Action \<Rightarrow> Url option" where
  "triggerUrl (Navigate u) = Some u"
| "triggerUrl (InterceptLeaveRedirect u) = Some u"
| "triggerUrl (InterceptEnterRedirect u) = Some u"
| "triggerUrl (NavigationComplete u rs) = None"
| "triggerUrl (Other a) = None"

text \<open>
  \<^verbatim>\<open>routeConfig?.hook\<close>: the hook of the route's config, absent when the config is
  \<^verbatim>\<open>undefined\<close> or does not declare it.
\<close>

definition hookOf ::
  "(('d, 'a, 'x) RouteConfig \<Rightarrow> 'h option) \<Rightarrow> ('d, 'a, 'x) RouteMatcher \<Rightarrow> 'd Route \<Rightarrow> 'h option" where
  "hookOf field rm route =
     (case getRouteConfig rm (routeConfigId route) of
        None \<Rightarrow> None
      | Some routeConfig \<Rightarrow> field routeConfig)"

text \<open>
  The first half of a loop body. \<open>Inr None\<close>: go on to the dispatch hook;
  \<open>Inr (Some out)\<close>: the enclosing function returns the observable of \<open>out\<close>
  (\<^verbatim>\<open>EMPTY\<close> is \<open>[]\<close>); \<open>Inl e\<close>: the guard threw. A result that is not a boolean is
  taken as the redirect Url.
\<close>

definition guardStep ::
  "(('d, 'a, 'x) RouteConfig \<Rightarrow> ('d, 'x) Guard option) \<Rightarrow> (Url \<Rightarrow> ('d, 'a) Action) \<Rightarrow>
   ('d, 'a, 'x) RouteMatcher \<Rightarrow> ('d, 'x) Store \<Rightarrow> Url \<Rightarrow> 'd Route \<Rightarrow>
   HookError + ('d, 'a) Action list option" where
  "guardStep intercept redirect rm store prevUrl route =
     (case hookOf intercept rm route of
        None \<Rightarrow> Inr None
      | Some hook \<Rightarrow>
          (case hook store prevUrl route of
             Inl e \<Rightarrow> Inl e
           | Inr (GBool result) \<Rightarrow> if \<not> result then Inr (Some []) else Inr None
           | Inr (GUrl result) \<Rightarrow> Inr (Some [redirect result])))"

text \<open>
  The second half of a loop body: the actions pushed for this route, none when the
  route has no dispatch hook.
\<close>

definition dispatchStep ::
  "(('d, 'a, 'x) RouteConfig \<Rightarrow> ('d, 'a, 'x) Dispatcher option) \<Rightarrow>
   ('d, 'a, 'x) RouteMatcher \<Rightarrow> ('d, 'x) Store \<Rightarrow> Url \<Rightarrow> 'd Route \<Rightarrow>
   HookError + ('d, 'a) Action list" where
  "dispatchStep dispatch rm store prevUrl route =
     (case hookOf dispatch rm route of
        None \<Rightarrow> Inr []
      | Some hook \<Rightarrow>
          (case hook store prevUrl route of
             Inl e \<Rightarrow> Inl e
           | Inr action \<Rightarrow> Inr [action]))"

text \<open>
  How a \<^verbatim>\<open>for\<close> loop of the pipeline ends: it returned from the enclosing function
  with the observable of these actions, or it ran through with this list collected.
\<close>

datatype ('d, 'a) LoopOutcome =
    Returned "('d, 'a) Action list"
  | Collected "('d, 'a) Action list"

text \<open>
  The two loops of the pipeline have the same body up to the hooks they read and the
  redirect action they build, so one function is both; \<open>acc\<close> is the array the loop
  pushes to.
\<close>

fun hookLoop ::
  "(('d, 'a, 'x) RouteConfig \<Rightarrow> ('d, 'x) Guard option) \<Rightarrow>
   (('d, 'a, 'x) RouteConfig \<Rightarrow> ('d, 'a, 'x) Dispatcher option) \<Rightarrow>
   (Url \<Rightarrow> ('d, 'a) Action) \<Rightarrow>
   ('d, 'a, 'x) RouteMatcher \<Rightarrow> ('d, 'x) Store \<Rightarrow> Url \<Rightarrow> 'd Route list \<Rightarrow>
   ('d, 'a) Action list \<Rightarrow> HookError + ('d, 'a) LoopOutcome" where
  "hookLoop intercept dispatch redirect rm store prevUrl [] acc = Inr (Collected acc)"
| "hookLoop intercept dispatch redirect rm store prevUrl (route # rest) acc =
     (case guardStep intercept redirect rm store prevUrl route of
        Inl e \<Rightarrow> Inl e
      | Inr (Some out) \<Rightarrow> Inr (Returned out)
      | Inr None \<Rightarrow>
          (case dispatchStep dispatch rm store prevUrl route of
             Inl e \<Rightarrow> Inl e
           | Inr pushed \<Rightarrow>
               hookLoop intercept dispatch redirect rm store prevUrl rest (acc @ pushed)))"

definition leaveLoop ::
  "('d, 'a, 'x) RouteMatcher \<Rightarrow> ('d, 'x) Store \<Rightarrow> Url \<Rightarrow> 'd Route list \<Rightarrow>
   ('d, 'a) Action list \<Rightarrow> HookError + ('d, 'a) LoopOutcome" where
  "leaveLoop = hookLoop interceptLeave dispatchOnLeave InterceptLeaveRedirect"

definition enterLoop ::
  "('d, 'a, 'x) RouteMatcher \<Rightarrow> ('d, 'x) Store \<Rightarrow> Url \<Rightarrow> 'd Route list \<Rightarrow>
   ('d, 'a) Action list \<Rightarrow> HookError + ('d, 'a) LoopOutcome" where
  "enterLoop = hookLoop interceptEnter dispatchOnEnter InterceptEnterRedirect"

text \<open>
  The function given to \<^verbatim>\<open>concatMap\<close>, for a trigger whose payload url is \<open>nextUrl\<close>:
  the actions of the observable it returns, or the exception it throws.
\<close>

definition pipeline ::
  "('d, 'a, 'x) RouteMatcher \<Rightarrow> ('d, 'x) Store \<Rightarrow> Url \<Rightarrow> HookError + ('d, 'a) Action list" where
  "pipeline rm store nextUrl =
     (let prevUrl = url (routerSlice store);
          prevRoutes = routes (routerSlice store)
      in case leaveLoop rm store prevUrl prevRoutes [] of
           Inl e \<Rightarrow> Inl e
         | Inr (Returned out) \<Rightarrow> Inr out
         | Inr (Collected leaveActions) \<Rightarrow>
             (let nextRoutes = match rm (path nextUrl)
              in case enterLoop rm store prevUrl nextRoutes [] of
                   Inl e \<Rightarrow> Inl e
                 | Inr (Returned out) \<Rightarrow> Inr out
                 | Inr (Collected enterActions) \<Rightarrow>
                     Inr (leaveActions @ [NavigationComplete nextUrl nextRoutes] @ enterActions)))"

section \<open>The bootstrap reaction\<close>

text \<open>
  The second reaction added to \<^verbatim>\<open>combineReactions()\<close> ignores the action stream and
  the store, and emits \<^verbatim>\<open>of(routerActions.Navigate({ url: createUrl() }))\<close>.
\<close>

definition bootstrapReaction :: "Url \<Rightarrow> ('d, 'a) Action list" where
  "bootstrapReaction createUrl = [Navigate createUrl]"

section \<open>The store that runs the reaction\<close>

text \<open>
  The RouterState once the reducer has folded what a pass emitted, in the order of
  emission. A pass that throws has emitted nothing.
\<close>

definition commitPass ::
  "'d RouterState \<Rightarrow> HookError + ('d, 'a) Action list \<Rightarrow> 'd RouterState" where
  "commitPass state result =
     (case result of Inl e \<Rightarrow> state | Inr actions \<Rightarrow> foldl routerReducer state actions)"

text \<open>
  Modelled from the spec: the store of \<^verbatim>\<open>@lib/store\<close> and the \<^verbatim>\<open>concatMap\<close> in front
  of the pipeline, which are not among the sources. The spec gives the store the
  contract \<^verbatim>\<open>get(selector)\<close>, \<^verbatim>\<open>dispatch(action)\<close>, and describes the reaction as a
  single consumer of a serialized queue of triggers, to which redirect re-entries are
  appended like any other trigger. A dispatched action is reduced by every slice
  (\<open>otherReducer\<close> stands for the reducers of the other slices) and, when it passes the
  filter, waits in \<open>pending\<close> behind the triggers dispatched before it.
\<close>

record ('d, 'a, 'x) Machine =
  storeState :: "('d, 'x) Store"
  pending :: "('d, 'a) Action list"

text \<open>
  Modelled from the spec: what \<^verbatim>\<open>dispatch(action)\<close> does to the state, the router's
  slice being reduced by \<open>routerReducer\<close>.
\<close>

definition storeReduce ::
  "('x \<Rightarrow> ('d, 'a) Action \<Rightarrow> 'x) \<Rightarrow> ('d, 'x) Store \<Rightarrow> ('d, 'a) Action \<Rightarrow> ('d, 'x) Store" where
  "storeReduce otherReducer st action =
     \<lparr>routerSlice = routerReducer (routerSlice st) action,
      otherSlices = otherReducer (otherSlices st) action\<rparr>"

text \<open>The action passes the \<^verbatim>\<open>filterActions\<close> in front of the pipeline.\<close>

definition isTrigger :: "('d, 'a) Action \<Rightarrow> bool" where
  "isTrigger action = (triggerUrl action \<noteq> None)"

text \<open>
  Modelled from the spec: the actions a reaction emits are dispatched in the order of
  emission; those that are triggers queue up behind the pending ones.
\<close>

definition dispatchAll ::
  "('x \<Rightarrow> ('d, 'a) Action \<Rightarrow> 'x) \<Rightarrow> ('d, 'a, 'x) Machine \<Rightarrow> ('d, 'a) Action list \<Rightarrow>
   ('d, 'a, 'x) Machine" where
  "dispatchAll otherReducer m actions =
     \<lparr>storeState = foldl (storeReduce otherReducer) (storeState m) actions,
      pending = pending m @ filter isTrigger actions\<rparr>"

text \<open>
  Modelled from the spec: one pass of the serialized consumer. \<open>None\<close>: idle, nothing
  is pending. Otherwise the oldest pending trigger is taken, the pipeline runs on the
  store as it is now, and what it emits is dispatched in order; an exception leaves
  the pipeline (\<open>Inl\<close>) with nothing dispatched.
\<close>

definition step ::
  "('x \<Rightarrow> ('d, 'a) Action \<Rightarrow> 'x) \<Rightarrow> ('d, 'a, 'x) RouteMatcher \<Rightarrow> ('d, 'a, 'x) Machine \<Rightarrow>
   (HookError + ('d, 'a, 'x) Machine) option" where
  "step otherReducer rm m =
     (case pending m of
        [] \<Rightarrow> None
      | trigger # rest \<Rightarrow>
          (case triggerUrl trigger of
             None \<Rightarrow> Some (Inr (m\<lparr>pending := rest\<rparr>))
           | Some nextUrl \<Rightarrow>
               (case pipeline rm (storeState m) nextUrl of
                  Inl e \<Rightarrow> Some (Inl e)
                | Inr actions \<Rightarrow>
                    Some (Inr (dispatchAll otherReducer (m\<lparr>pending := rest\<rparr>) actions)))))"

text \<open>
  Modelled from the spec: the consumer run for at most \<open>n\<close> passes, with the triggers
  it took, in order, and the machine it stopped in (or the exception that stopped it).
\<close>

fun run ::
  "nat \<Rightarrow> ('x \<Rightarrow> ('d, 'a) Action \<Rightarrow> 'x) \<Rightarrow> ('d, 'a, 'x) RouteMatcher \<Rightarrow> ('d, 'a, 'x) Machine \<Rightarrow>
   ('d, 'a) Action list \<times> (HookError + ('d, 'a, 'x) Machine)" where
  "run 0 otherReducer rm m = ([], Inr m)"
| "run (Suc n) otherReducer rm m =
     (case pending m of
        [] \<Rightarrow> ([], Inr m)
      | trigger # rest \<Rightarrow>
          (case step otherReducer rm m of
             None \<Rightarrow> ([], Inr m)
           | Some (Inl e) \<Rightarrow> ([trigger], Inl e)
           | Some (Inr m') \<Rightarrow>
               (case run n otherReducer rm m' of (taken, final) \<Rightarrow> (trigger # taken, final))))"

text \<open>
  Modelled from the spec: the machine at router construction. The store holds the
  initial state and the bootstrap reaction's emission has been dispatched.
\<close>

definition initialMachine ::
  "('x \<Rightarrow> ('d, 'a) Action \<Rightarrow> 'x) \<Rightarrow> Url \<Rightarrow> 'x \<Rightarrow> ('d, 'a, 'x) Machine" where
  "initialMachine otherReducer createUrl others =
     dispatchAll otherReducer
       \<lparr>storeState = \<lparr>routerSlice = initialState createUrl, otherSlices = others\<rparr>, pending = []\<rparr>
       (bootstrapReaction createUrl)"

section \<open>Vocabulary of the claims\<close>

text \<open>
  The guard of a route lets the navigation go on: the route has no such guard, or the
  guard returns \<^verbatim>\<open>true\<close>.
\<close>

definition guardAllows ::
  "(('d, 'a, 'x) RouteConfig \<Rightarrow> ('d, 'x) Guard option) \<Rightarrow> ('d, 'a, 'x) RouteMatcher \<Rightarrow>
   ('d, 'x) Store \<Rightarrow> Url \<Rightarrow> 'd Route \<Rightarrow> bool" where
  "guardAllows intercept rm st prevUrl route =
     (case hookOf intercept rm route of
        None \<Rightarrow> True
      | Some hook \<Rightarrow> hook st prevUrl route = Inr (GBool True))"

text \<open>The dispatch hook of a route does not throw: there is none, or it returns an action.\<close>

definition dispatchReturns ::
  "(('d, 'a, 'x) RouteConfig \<Rightarrow> ('d, 'a, 'x) Dispatcher option) \<Rightarrow> ('d, 'a, 'x) RouteMatcher \<Rightarrow>
   ('d, 'x) Store \<Rightarrow> Url \<Rightarrow> 'd Route \<Rightarrow> bool" where
  "dispatchReturns dispatch rm st prevUrl route =
     (case hookOf dispatch rm route of
        None \<Rightarrow> True
      | Some hook \<Rightarrow> (case hook st prevUrl route of Inl e \<Rightarrow> False | Inr action \<Rightarrow> True))"

text \<open>A phase passes a route: its guard allows and its dispatch hook returns.\<close>

definition passes ::
  "(('d, 'a, 'x) RouteConfig \<Rightarrow> ('d, 'x) Guard option) \<Rightarrow>
   (('d, 'a, 'x) RouteConfig \<Rightarrow> ('d, 'a, 'x) Dispatcher option) \<Rightarrow> ('d, 'a, 'x) RouteMatcher \<Rightarrow>
   ('d, 'x) Store \<Rightarrow> Url \<Rightarrow> 'd Route \<Rightarrow> bool" where
  "passes intercept dispatch rm st prevUrl route =
     (guardAllows intercept rm st prevUrl route \<and> dispatchReturns dispatch rm st prevUrl route)"

text \<open>
  The actions the dispatch hooks of the given routes return, in route order: what a
  phase that passes every route has collected.
\<close>

definition collected ::
  "(('d, 'a, 'x) RouteConfig \<Rightarrow> ('d, 'a, 'x) Dispatcher option) \<Rightarrow> ('d, 'a, 'x) RouteMatcher \<Rightarrow>
   ('d, 'x) Store \<Rightarrow> Url \<Rightarrow> 'd Route list \<Rightarrow> ('d, 'a) Action list" where
  "collected dispatch rm st prevUrl rs =
     concat (map (\<lambda>route.
       case hookOf dispatch rm route of
         None \<Rightarrow> []
       | Some hook \<Rightarrow> (case hook st prevUrl route of Inl e \<Rightarrow> [] | Inr action \<Rightarrow> [action])) rs)"

text \<open>
  The loop of a phase over \<open>rs\<close> gets as far as the guard of the \<open>i\<close>-th route, calls
  it, and it answers \<open>answer\<close>: every route before has passed.
\<close>

definition guardAnswers ::
  "(('d, 'a, 'x) RouteConfig \<Rightarrow> ('d, 'x) Guard option) \<Rightarrow>
   (('d, 'a, 'x) RouteConfig \<Rightarrow> ('d, 'a, 'x) Dispatcher option) \<Rightarrow> ('d, 'a, 'x) RouteMatcher \<Rightarrow>
   ('d, 'x) Store \<Rightarrow> Url \<Rightarrow> 'd Route list \<Rightarrow> nat \<Rightarrow> HookError + GuardResult \<Rightarrow> bool" where
  "guardAnswers intercept dispatch rm st prevUrl rs i answer =
     (i < length rs \<and>
      (\<forall>r \<in> set (take i rs). passes intercept dispatch rm st prevUrl r) \<and>
      (case hookOf intercept rm (rs ! i) of
         None \<Rightarrow> False
       | Some hook \<Rightarrow> hook st prevUrl (rs ! i) = answer))"

text \<open>
  The loop of a phase over \<open>rs\<close> gets as far as the dispatch hook of the \<open>i\<close>-th
  route, calls it, and it throws \<open>e\<close>: every route before has passed and the guard of
  this one allows.
\<close>

definition dispatchThrows ::
  "(('d, 'a, 'x) RouteConfig \<Rightarrow> ('d, 'x) Guard option) \<Rightarrow>
   (('d, 'a, 'x) RouteConfig \<Rightarrow> ('d, 'a, 'x) Dispatcher option) \<Rightarrow> ('d, 'a, 'x) RouteMatcher \<Rightarrow>
   ('d, 'x) Store \<Rightarrow> Url \<Rightarrow> 'd Route list \<Rightarrow> nat \<Rightarrow> HookError \<Rightarrow> bool" where
  "dispatchThrows intercept dispatch rm st prevUrl rs i e =
     (i < length rs \<and>
      (\<forall>r \<in> set (take i rs). passes intercept dispatch rm st prevUrl r) \<and>
      guardAllows intercept rm st prevUrl (rs ! i) \<and>
      (case hookOf dispatch rm (rs ! i) of
         None \<Rightarrow> False
       | Some hook \<Rightarrow> hook st prevUrl (rs ! i) = Inl e))"

text \<open>The leave phase of a pass on store \<open>st\<close> runs through: it passes every current route.\<close>

definition leavePasses :: "('d, 'a, 'x) RouteMatcher \<Rightarrow> ('d, 'x) Store \<Rightarrow> bool" where
  "leavePasses rm st =
     (\<forall>r \<in> set (routes (routerSlice st)).
        passes interceptLeave dispatchOnLeave rm st (url (routerSlice st)) r)"

text \<open>The enter phase of a pass for \<open>nextUrl\<close> runs through: it passes every candidate route.\<close>

definition enterPasses :: "('d, 'a, 'x) RouteMatcher \<Rightarrow> ('d, 'x) Store \<Rightarrow> Url \<Rightarrow> bool" where
  "enterPasses rm st nextUrl =
     (\<forall>r \<in> set (match rm (path nextUrl)).
        passes interceptEnter dispatchOnEnter rm st (url (routerSlice st)) r)"

text \<open>The actions a dispatch hook must not return for the pass's commit to be the only one.\<close>

fun isCommit :: "('d, 'a) Action \<Rightarrow> bool" where
  "isCommit (NavigationComplete u rs) = True"
| "isCommit (Navigate u) = False"
| "isCommit (InterceptLeaveRedirect u) = False"
| "isCommit (InterceptEnterRedirect u) = False"
| "isCommit (Other a) = False"

text \<open>
  The leave phase of a pass on store \<open>st\<close> calls the leave guard of the \<open>i\<close>-th
  current route, which answers \<open>answer\<close>.
\<close>

definition leaveGuardAnswers ::
  "('d, 'a, 'x) RouteMatcher \<Rightarrow> ('d, 'x) Store \<Rightarrow> nat \<Rightarrow> HookError + GuardResult \<Rightarrow> bool" where
  "leaveGuardAnswers rm st i answer =
     guardAnswers interceptLeave dispatchOnLeave rm st (url (routerSlice st))
       (routes (routerSlice st)) i answer"

text \<open>
  The leave phase has run through, and the enter phase of a pass for \<open>nextUrl\<close> calls
  the enter guard of the \<open>i\<close>-th candidate route, which answers \<open>answer\<close>.
\<close>

definition enterGuardAnswers ::
  "('d, 'a, 'x) RouteMatcher \<Rightarrow> ('d, 'x) Store \<Rightarrow> Url \<Rightarrow> nat \<Rightarrow> HookError + GuardResult \<Rightarrow> bool" where
  "enterGuardAnswers rm st nextUrl i answer =
     (leavePasses rm st \<and>
      guardAnswers interceptEnter dispatchOnEnter rm st (url (routerSlice st))
        (match rm (path nextUrl)) i answer)"

text \<open>The same for a \<^verbatim>\<open>dispatchOnLeave\<close> and a \<^verbatim>\<open>dispatchOnEnter\<close> hook that throws \<open>e\<close>.\<close>

definition leaveDispatchThrows ::
  "('d, 'a, 'x) RouteMatcher \<Rightarrow> ('d, 'x) Store \<Rightarrow> nat \<Rightarrow> HookError \<Rightarrow> bool" where
  "leaveDispatchThrows rm st i e =
     dispatchThrows interceptLeave dispatchOnLeave rm st (url (routerSlice st))
       (routes (routerSlice st)) i e"

definition enterDispatchThrows ::
  "('d, 'a, 'x) RouteMatcher \<Rightarrow> ('d, 'x) Store \<Rightarrow> Url \<Rightarrow> nat \<Rightarrow> HookError \<Rightarrow> bool" where
  "enterDispatchThrows rm st nextUrl i e =
     (leavePasses rm st \<and>
      dispatchThrows interceptEnter dispatchOnEnter rm st (url (routerSlice st))
        (match rm (path nextUrl)) i e)"

text \<open>The actions the leave and the enter phase of a pass collect when they run through.\<close>

definition leaveActions :: "('d, 'a, 'x) RouteMatcher \<Rightarrow> ('d, 'x) Store \<Rightarrow> ('d, 'a) Action list" where
  "leaveActions rm st =
     collected dispatchOnLeave rm st (url (routerSlice st)) (routes (routerSlice st))"

definition enterActions ::
  "('d, 'a, 'x) RouteMatcher \<Rightarrow> ('d, 'x) Store \<Rightarrow> Url \<Rightarrow> ('d, 'a) Action list" where
  "enterActions rm st nextUrl =
     collected dispatchOnEnter rm st (url (routerSlice st)) (match rm (path nextUrl))"

text \<open>The invariant of the data model: the routes are those matched for the url's path.\<close>

definition routesMatched :: "('d, 'a, 'x) RouteMatcher \<Rightarrow> 'd RouterState \<Rightarrow> bool" where
  "routesMatched rm state = (routes state = match rm (path (url state)))"

text \<open>None of the actions is a \<^verbatim>\<open>NavigationComplete\<close>.\<close>

definition noCommitIn :: "('d, 'a) Action list \<Rightarrow> bool" where
  "noCommitIn actions = (\<forall>a \<in> set actions. \<not> isCommit a)"

text \<open>
  No current route has an \<^verbatim>\<open>interceptLeave\<close> hook, no candidate route for \<open>nextUrl\<close> has
  an \<^verbatim>\<open>interceptEnter\<close> hook.
\<close>

definition noGuards :: "('d, 'a, 'x) RouteMatcher \<Rightarrow> ('d, 'x) Store \<Rightarrow> Url \<Rightarrow> bool" where
  "noGuards rm st nextUrl =
     ((\<forall>r \<in> set (routes (routerSlice st)). hookOf interceptLeave rm r = None) \<and>
      (\<forall>r \<in> set (match rm (path nextUrl)). hookOf interceptEnter rm r = None))"

text \<open>No dispatch hook of the current routes or of the candidate routes throws.\<close>

definition dispatchHooksReturn :: "('d, 'a, 'x) RouteMatcher \<Rightarrow> ('d, 'x) Store \<Rightarrow> Url \<Rightarrow> bool" where
  "dispatchHooksReturn rm st nextUrl =
     ((\<forall>r \<in> set (routes (routerSlice st)).
         dispatchReturns dispatchOnLeave rm st (url (routerSlice st)) r) \<and>
      (\<forall>r \<in> set (match rm (path nextUrl)).
         dispatchReturns dispatchOnEnter rm st (url (routerSlice st)) r))"

section \<open>An example registry\<close>

text \<open>
  A registry in the style of the spec's example, used to evaluate the pipeline on
  concrete inputs: a root route, a page \<^verbatim>\<open>/a\<close> with dispatch hooks and a child, a page
  whose enter guard refuses, pages whose guards redirect, a page whose hook throws.
\<close>

definition exampleUrl :: "string list \<Rightarrow> Url" where
  "exampleUrl p = \<lparr>path = p, queryParams = []\<rparr>"

definition exampleRoute :: "int \<Rightarrow> unit Route" where
  "exampleRoute i = \<lparr>routeConfigId = i, params = [], data = ()\<rparr>"

definition noHooks :: "(unit, string, unit) RouteConfig" where
  "noHooks = \<lparr>interceptLeave = None, interceptEnter = None,
              dispatchOnLeave = None, dispatchOnEnter = None\<rparr>"

definition exampleConfig :: "int \<Rightarrow> (unit, string, unit) RouteConfig option" where
  "exampleConfig i =
     (if i = 0 then Some noHooks
      else if i = 1 then Some (noHooks
        \<lparr>interceptLeave := Some (\<lambda>st prevUrl route. Inr (GBool True)),
         dispatchOnLeave := Some (\<lambda>st prevUrl route. Inr (Other ''left a'')),
         dispatchOnEnter := Some (\<lambda>st prevUrl route. Inr (Other ''entered a''))\<rparr>)
      else if i = 2 then Some (noHooks
        \<lparr>interceptEnter := Some (\<lambda>st prevUrl route. Inr (GBool False))\<rparr>)
      else if i = 3 then Some (noHooks
        \<lparr>interceptEnter := Some (\<lambda>st prevUrl route. Inr (GUrl (exampleUrl [''a''])))\<rparr>)
      else if i = 4 then Some (noHooks
        \<lparr>dispatchOnEnter := Some (\<lambda>st prevUrl route. Inl (Thrown ''boom''))\<rparr>)
      else if i = 5 then Some (noHooks
        \<lparr>interceptLeave := Some (\<lambda>st prevUrl route. Inr (GBool False))\<rparr>)
      else if i = 6 then Some (noHooks
        \<lparr>interceptLeave := Some (\<lambda>st prevUrl route. Inr (GUrl (exampleUrl [''a''])))\<rparr>)
      else if i = 7 then Some (noHooks
        \<lparr>dispatchOnEnter := Some (\<lambda>st prevUrl route.
           Inr (NavigationComplete (exampleUrl [''b'']) []))\<rparr>)
      else if i = 8 then Some (noHooks
        \<lparr>interceptEnter := Some (\<lambda>st prevUrl route. Inr (GUrl (exampleUrl [''b''])))\<rparr>)
      else if i = 9 then Some (noHooks
        \<lparr>dispatchOnLeave := Some (\<lambda>st prevUrl route. Inr (Other ''left sub'')),
         dispatchOnEnter := Some (\<lambda>st prevUrl route. Inr (Other ''entered sub''))\<rparr>)
      else if i = 10 then Some noHooks
      else if i = 11 then Some (noHooks
        \<lparr>interceptLeave := Some (\<lambda>st prevUrl route. Inl (Thrown ''guard failed''))\<rparr>)
      else None)"

definition exampleMatch :: "string list \<Rightarrow> unit Route list" where
  "exampleMatch p =
     (if p = [] then [exampleRoute 0]
      else if p = [''a''] then [exampleRoute 1]
      else if p = [''a'', ''sub''] then [exampleRoute 1, exampleRoute 9]
      else if p = [''a'', ''c''] then [exampleRoute 1, exampleRoute 3]
      else if p = [''a'', ''e''] then [exampleRoute 1, exampleRoute 5]
      else if p = [''a'', ''f''] then [exampleRoute 1, exampleRoute 6]
      else if p = [''a'', ''t''] then [exampleRoute 1, exampleRoute 11]
      else if p = [''b''] then [exampleRoute 2]
      else if p = [''c''] then [exampleRoute 3]
      else if p = [''d''] then [exampleRoute 4]
      else if p = [''g''] then [exampleRoute 7]
      else if p = [''h''] then [exampleRoute 8]
      else if p = [''k''] then [exampleRoute 10]
      else [])"

definition exampleMatcher :: "(unit, string, unit) RouteMatcher" where
  "exampleMatcher = \<lparr>match = exampleMatch, getRouteConfig = exampleConfig\<rparr>"

text \<open>The store once the navigation to path \<open>p\<close> has been committed.\<close>

definition exampleStore :: "string list \<Rightarrow> (unit, unit) Store" where
  "exampleStore p =
     \<lparr>routerSlice = \<lparr>url = exampleUrl p, routes = exampleMatch p\<rparr>, otherSlices = ()\<rparr>"

text \<open>The store at construction, and the reducer of an application with no other slice.\<close>

definition exampleInitialStore :: "(unit, unit) Store" where
  "exampleInitialStore = \<lparr>routerSlice = initialState (exampleUrl []), otherSlices = ()\<rparr>"

definition noOtherReducer :: "unit \<Rightarrow> (unit, string) Action \<Rightarrow> unit" where
  "noOtherReducer x action = x"

section \<open>The loops\<close>

lemma guardStep_allows:
  "guardAllows intercept rm st prevUrl route \<Longrightarrow>
   guardStep intercept redirect rm st prevUrl route = Inr None"
  by (simp add: guardAllows_def guardStep_def split: option.splits)

lemma dispatchStep_returns:
  "dispatchReturns dispatch rm st prevUrl route \<Longrightarrow>
   dispatchStep dispatch rm st prevUrl route = Inr (collected dispatch rm st prevUrl [route])"
  by (simp add: dispatchReturns_def dispatchStep_def collected_def split: option.splits sum.splits)

lemma collected_append:
  "collected dispatch rm st prevUrl (xs @ ys) =
   collected dispatch rm st prevUrl xs @ collected dispatch rm st prevUrl ys"
  by (simp add: collected_def)

lemma collected_Cons:
  "collected dispatch rm st prevUrl (x # xs) =
   collected dispatch rm st prevUrl [x] @ collected dispatch rm st prevUrl xs"
  by (simp add: collected_def)

lemma hookLoop_prefix:
  "\<forall>r \<in> set pre. passes intercept dispatch rm st prevUrl r \<Longrightarrow>
   hookLoop intercept dispatch redirect rm st prevUrl (pre @ rest) acc =
   hookLoop intercept dispatch redirect rm st prevUrl rest (acc @ collected dispatch rm st prevUrl pre)"
proof (induction pre arbitrary: acc)
  case Nil
  then show ?case by (simp add: collected_def)
next
  case (Cons p pre)
  from Cons.prems have p: "passes intercept dispatch rm st prevUrl p"
    and rest: "\<forall>r \<in> set pre. passes intercept dispatch rm st prevUrl r"
    by simp_all
  from p have g: "guardStep intercept redirect rm st prevUrl p = Inr None"
    by (simp add: passes_def guardStep_allows)
  from p have d: "dispatchStep dispatch rm st prevUrl p = Inr (collected dispatch rm st prevUrl [p])"
    by (simp add: passes_def dispatchStep_returns)
  show ?case
    using Cons.IH [OF rest, of "acc @ collected dispatch rm st prevUrl [p]"]
    by (simp add: g d collected_Cons [of _ _ _ _ p pre])
qed

lemma hookLoop_all_pass:
  "\<forall>r \<in> set rs. passes intercept dispatch rm st prevUrl r \<Longrightarrow>
   hookLoop intercept dispatch redirect rm st prevUrl rs acc =
   Inr (Collected (acc @ collected dispatch rm st prevUrl rs))"
  using hookLoop_prefix [of rs intercept dispatch rm st prevUrl redirect "[]" acc] by simp

lemma split_at: "i < length rs \<Longrightarrow> rs = take i rs @ rs ! i # drop (Suc i) rs"
  by (simp add: id_take_nth_drop)

lemma hookLoop_guard_answers:
  assumes "guardAnswers intercept dispatch rm st prevUrl rs i answer"
  shows "hookLoop intercept dispatch redirect rm st prevUrl rs acc =
         (case answer of
            Inl e \<Rightarrow> Inl e
          | Inr (GBool b) \<Rightarrow>
              if b then hookLoop intercept dispatch redirect rm st prevUrl (rs ! i # drop (Suc i) rs)
                          (acc @ collected dispatch rm st prevUrl (take i rs))
              else Inr (Returned [])
          | Inr (GUrl u) \<Rightarrow> Inr (Returned [redirect u]))"
proof -
  from assms have i: "i < length rs"
    and pre: "\<forall>r \<in> set (take i rs). passes intercept dispatch rm st prevUrl r"
    and h: "\<exists>hook. hookOf intercept rm (rs ! i) = Some hook \<and> hook st prevUrl (rs ! i) = answer"
    by (auto simp: guardAnswers_def split: option.splits)
  have "hookLoop intercept dispatch redirect rm st prevUrl rs acc =
        hookLoop intercept dispatch redirect rm st prevUrl (take i rs @ rs ! i # drop (Suc i) rs) acc"
    using split_at [OF i] by simp
  also have "\<dots> = hookLoop intercept dispatch redirect rm st prevUrl (rs ! i # drop (Suc i) rs)
                     (acc @ collected dispatch rm st prevUrl (take i rs))"
    by (rule hookLoop_prefix [OF pre])
  finally have eq: "hookLoop intercept dispatch redirect rm st prevUrl rs acc =
      hookLoop intercept dispatch redirect rm st prevUrl (rs ! i # drop (Suc i) rs)
        (acc @ collected dispatch rm st prevUrl (take i rs))" .
  from h obtain hook where hk: "hookOf intercept rm (rs ! i) = Some hook"
    and ans: "hook st prevUrl (rs ! i) = answer" by blast
  show ?thesis
  proof (cases answer)
    case (Inl e)
    with hk ans eq show ?thesis by (simp add: guardStep_def)
  next
    case (Inr g)
    show ?thesis
    proof (cases g)
      case (GBool b)
      show ?thesis
      proof (cases b)
        case True
        with Inr GBool eq show ?thesis by simp
      next
        case False
        with Inr GBool hk ans eq show ?thesis by (simp add: guardStep_def)
      qed
    next
      case (GUrl u)
      with Inr hk ans eq show ?thesis by (simp add: guardStep_def)
    qed
  qed
qed

lemma hookLoop_dispatch_throws:
  assumes "dispatchThrows intercept dispatch rm st prevUrl rs i e"
  shows "hookLoop intercept dispatch redirect rm st prevUrl rs acc = Inl e"
proof -
  from assms have i: "i < length rs"
    and pre: "\<forall>r \<in> set (take i rs). passes intercept dispatch rm st prevUrl r"
    and g: "guardAllows intercept rm st prevUrl (rs ! i)"
    and h: "\<exists>hook. hookOf dispatch rm (rs ! i) = Some hook \<and> hook st prevUrl (rs ! i) = Inl e"
    by (auto simp: dispatchThrows_def split: option.splits)
  have "hookLoop intercept dispatch redirect rm st prevUrl rs acc =
        hookLoop intercept dispatch redirect rm st prevUrl (take i rs @ rs ! i # drop (Suc i) rs) acc"
    using split_at [OF i] by simp
  also have "\<dots> = hookLoop intercept dispatch redirect rm st prevUrl (rs ! i # drop (Suc i) rs)
                     (acc @ collected dispatch rm st prevUrl (take i rs))"
    by (rule hookLoop_prefix [OF pre])
  finally show ?thesis
    using h guardStep_allows [OF g, of redirect] by (auto simp: dispatchStep_def)
qed

lemma hookLoop_skip:
  assumes "hookOf intercept rm route = None" and "hookOf dispatch rm route = None"
  shows "hookLoop intercept dispatch redirect rm st prevUrl (pre @ route # post) acc =
         hookLoop intercept dispatch redirect rm st prevUrl (pre @ post) acc"
proof (induction pre arbitrary: acc)
  case Nil
  from assms show ?case by (simp add: guardStep_def dispatchStep_def)
next
  case (Cons p pre)
  then show ?case by (simp split: sum.splits option.splits)
qed

lemma guardStep_not_allowed:
  "\<not> guardAllows intercept rm st prevUrl route \<Longrightarrow>
   (\<exists>e. guardStep intercept redirect rm st prevUrl route = Inl e) \<or>
   guardStep intercept redirect rm st prevUrl route = Inr (Some []) \<or>
   (\<exists>u. guardStep intercept redirect rm st prevUrl route = Inr (Some [redirect u]))"
  by (auto simp: guardAllows_def guardStep_def split: option.splits sum.splits GuardResult.splits)

lemma dispatchStep_throws:
  "\<not> dispatchReturns dispatch rm st prevUrl route \<Longrightarrow>
   \<exists>e. dispatchStep dispatch rm st prevUrl route = Inl e"
  by (auto simp: dispatchReturns_def dispatchStep_def split: option.splits sum.splits)

lemma hookLoop_outcome:
  "(\<exists>e. hookLoop intercept dispatch redirect rm st prevUrl rs acc = Inl e) \<or>
   hookLoop intercept dispatch redirect rm st prevUrl rs acc = Inr (Returned []) \<or>
   (\<exists>u. hookLoop intercept dispatch redirect rm st prevUrl rs acc = Inr (Returned [redirect u])) \<or>
   ((\<forall>r \<in> set rs. passes intercept dispatch rm st prevUrl r) \<and>
    hookLoop intercept dispatch redirect rm st prevUrl rs acc =
      Inr (Collected (acc @ collected dispatch rm st prevUrl rs)))"
proof (induction rs arbitrary: acc)
  case Nil
  show ?case by (simp add: collected_def)
next
  case (Cons r rs)
  show ?case
  proof (cases "guardAllows intercept rm st prevUrl r")
    case False
    from guardStep_not_allowed [OF False, of redirect] show ?thesis by auto
  next
    case g: True
    show ?thesis
    proof (cases "dispatchReturns dispatch rm st prevUrl r")
      case False
      from dispatchStep_throws [OF False] guardStep_allows [OF g, of redirect]
      show ?thesis by auto
    next
      case d: True
      have step: "hookLoop intercept dispatch redirect rm st prevUrl (r # rs) acc =
                  hookLoop intercept dispatch redirect rm st prevUrl rs
                    (acc @ collected dispatch rm st prevUrl [r])"
        by (simp add: guardStep_allows [OF g] dispatchStep_returns [OF d])
      have p: "passes intercept dispatch rm st prevUrl r"
        using g d by (simp add: passes_def)
      from Cons.IH [of "acc @ collected dispatch rm st prevUrl [r]"] show ?thesis
        unfolding step using p by (auto simp: collected_Cons [of _ _ _ _ r rs])
    qed
  qed
qed

section \<open>The pipeline, phase by phase\<close>

lemma pipeline_leave_returned:
  "leaveLoop rm st (url (routerSlice st)) (routes (routerSlice st)) [] = Inr (Returned out) \<Longrightarrow>
   pipeline rm st nextUrl = Inr out"
  by (simp add: pipeline_def Let_def)

lemma pipeline_leave_throws:
  "leaveLoop rm st (url (routerSlice st)) (routes (routerSlice st)) [] = Inl e \<Longrightarrow>
   pipeline rm st nextUrl = Inl e"
  by (simp add: pipeline_def Let_def)

lemma leaveLoop_passes:
  "leavePasses rm st \<Longrightarrow>
   leaveLoop rm st (url (routerSlice st)) (routes (routerSlice st)) [] =
   Inr (Collected (leaveActions rm st))"
  unfolding leavePasses_def leaveLoop_def leaveActions_def
  by (simp add: hookLoop_all_pass)

lemma enterLoop_passes:
  "enterPasses rm st nextUrl \<Longrightarrow>
   enterLoop rm st (url (routerSlice st)) (match rm (path nextUrl)) [] =
   Inr (Collected (enterActions rm st nextUrl))"
  unfolding enterPasses_def enterLoop_def enterActions_def
  by (simp add: hookLoop_all_pass)

lemma pipeline_enter_returned:
  "leavePasses rm st \<Longrightarrow>
   enterLoop rm st (url (routerSlice st)) (match rm (path nextUrl)) [] = Inr (Returned out) \<Longrightarrow>
   pipeline rm st nextUrl = Inr out"
  by (simp add: pipeline_def Let_def leaveLoop_passes)

lemma pipeline_enter_throws:
  "leavePasses rm st \<Longrightarrow>
   enterLoop rm st (url (routerSlice st)) (match rm (path nextUrl)) [] = Inl e \<Longrightarrow>
   pipeline rm st nextUrl = Inl e"
  by (simp add: pipeline_def Let_def leaveLoop_passes)

lemma pipeline_passes:
  "leavePasses rm st \<Longrightarrow> enterPasses rm st nextUrl \<Longrightarrow>
   pipeline rm st nextUrl =
   Inr (leaveActions rm st @ [NavigationComplete nextUrl (match rm (path nextUrl))] @
        enterActions rm st nextUrl)"
  by (simp add: pipeline_def Let_def leaveLoop_passes enterLoop_passes)

lemma pipeline_outcome:
  "(\<exists>e. pipeline rm st nextUrl = Inl e) \<or>
   pipeline rm st nextUrl = Inr [] \<or>
   (\<exists>u. pipeline rm st nextUrl = Inr [InterceptLeaveRedirect u]) \<or>
   (\<exists>u. pipeline rm st nextUrl = Inr [InterceptEnterRedirect u]) \<or>
   (leavePasses rm st \<and> enterPasses rm st nextUrl \<and>
    pipeline rm st nextUrl =
      Inr (leaveActions rm st @ [NavigationComplete nextUrl (match rm (path nextUrl))] @
           enterActions rm st nextUrl))"
proof -
  consider (throws) e where
      "leaveLoop rm st (url (routerSlice st)) (routes (routerSlice st)) [] = Inl e"
    | (empty) "leaveLoop rm st (url (routerSlice st)) (routes (routerSlice st)) [] = Inr (Returned [])"
    | (redirect) u where
      "leaveLoop rm st (url (routerSlice st)) (routes (routerSlice st)) [] =
       Inr (Returned [InterceptLeaveRedirect u])"
    | (passes) "leavePasses rm st"
    using hookLoop_outcome [of interceptLeave dispatchOnLeave InterceptLeaveRedirect rm st
        "url (routerSlice st)" "routes (routerSlice st)" "[]"]
    unfolding leaveLoop_def leavePasses_def by blast
  then show ?thesis
  proof cases
    case throws
    then show ?thesis by (simp add: pipeline_leave_throws)
  next
    case empty
    then show ?thesis by (simp add: pipeline_leave_returned)
  next
    case redirect
    then show ?thesis by (simp add: pipeline_leave_returned)
  next
    case l: passes
    consider (throws) e where
        "enterLoop rm st (url (routerSlice st)) (match rm (path nextUrl)) [] = Inl e"
      | (empty) "enterLoop rm st (url (routerSlice st)) (match rm (path nextUrl)) [] =
                 Inr (Returned [])"
      | (redirect) u where
        "enterLoop rm st (url (routerSlice st)) (match rm (path nextUrl)) [] =
         Inr (Returned [InterceptEnterRedirect u])"
      | (passes) "enterPasses rm st nextUrl"
      using hookLoop_outcome [of interceptEnter dispatchOnEnter InterceptEnterRedirect rm st
          "url (routerSlice st)" "match rm (path nextUrl)" "[]"]
      unfolding enterLoop_def enterPasses_def by blast
    then show ?thesis
    proof cases
      case throws
      then show ?thesis by (simp add: pipeline_enter_throws [OF l])
    next
      case empty
      then show ?thesis by (simp add: pipeline_enter_returned [OF l])
    next
      case redirect
      then show ?thesis by (simp add: pipeline_enter_returned [OF l])
    next
      case passes
      with l show ?thesis by (simp add: pipeline_passes)
    qed
  qed
qed

section \<open>Folding what a pass emits\<close>

lemma routerReducer_commit:
  "routerReducer state (NavigationComplete u rs) = \<lparr>url = u, routes = rs\<rparr>"
  by simp

lemma routerReducer_other: "\<not> isCommit action \<Longrightarrow> routerReducer state action = state"
  by (cases action) simp_all

lemma foldl_no_commit:
  "\<forall>a \<in> set actions. \<not> isCommit a \<Longrightarrow> foldl routerReducer state actions = state"
  by (induction actions arbitrary: state) (simp_all add: routerReducer_other)

lemma foldl_through_commit:
  "\<forall>a \<in> set after. \<not> isCommit a \<Longrightarrow>
   foldl routerReducer state (before @ [NavigationComplete u rs] @ after) =
   \<lparr>url = u, routes = rs\<rparr>"
  by (simp add: foldl_no_commit)

lemma routerSlice_foldl:
  "routerSlice (foldl (storeReduce otherReducer) st actions) =
   foldl routerReducer (routerSlice st) actions"
  by (induction actions arbitrary: st) (simp_all add: storeReduce_def)

lemma guard_url_redirects_enter:
  assumes "enterGuardAnswers rm st nextUrl i (Inr (GUrl u))"
  shows "pipeline rm st nextUrl = Inr [InterceptEnterRedirect u]"
proof -
  from assms have l: "leavePasses rm st"
    and g: "guardAnswers interceptEnter dispatchOnEnter rm st (url (routerSlice st))
              (match rm (path nextUrl)) i (Inr (GUrl u))"
    by (simp_all add: enterGuardAnswers_def)
  have "enterLoop rm st (url (routerSlice st)) (match rm (path nextUrl)) [] =
        Inr (Returned [InterceptEnterRedirect u])"
    unfolding enterLoop_def by (simp add: hookLoop_guard_answers [OF g])
  with l show ?thesis by (rule pipeline_enter_returned)
qed

lemmas example_defs =
  exampleStore_def exampleInitialStore_def initialState_def exampleMatcher_def exampleMatch_def
  exampleConfig_def exampleRoute_def exampleUrl_def noHooks_def hookOf_def

lemmas vocabulary_defs =
  leavePasses_def enterPasses_def passes_def guardAllows_def dispatchReturns_def
  leaveActions_def enterActions_def collected_def
  leaveGuardAnswers_def enterGuardAnswers_def guardAnswers_def
  leaveDispatchThrows_def enterDispatchThrows_def dispatchThrows_def

section \<open>Order of the actions of a successful pass\<close>

text \<open>
  Claim C2. A pass in which no guard returns \<^verbatim>\<open>false\<close> or a Url and no hook throws
  emits, in this order: the \<^verbatim>\<open>dispatchOnLeave\<close> actions of the current routes in
  route order, one \<^verbatim>\<open>NavigationComplete\<close> carrying the target url and the routes
  matched for it, the \<^verbatim>\<open>dispatchOnEnter\<close> actions of the matched routes in route order.
\<close>

theorem successful_pass_order:
  assumes "leavePasses rm st" and "enterPasses rm st nextUrl"
  shows "pipeline rm st nextUrl =
         Inr (collected dispatchOnLeave rm st (url (routerSlice st)) (routes (routerSlice st)) @
              [NavigationComplete nextUrl (match rm (path nextUrl))] @
              collected dispatchOnEnter rm st (url (routerSlice st)) (match rm (path nextUrl)))"
  using pipeline_passes [OF assms] by (simp add: leaveActions_def enterActions_def)

theorem successful_pass_order_witness:
  "leavePasses exampleMatcher (exampleStore [''a'', ''sub'']) \<and>
   enterPasses exampleMatcher (exampleStore [''a'', ''sub'']) (exampleUrl [''a'', ''sub'']) \<and>
   pipeline exampleMatcher (exampleStore [''a'', ''sub'']) (exampleUrl [''a'', ''sub'']) =
   Inr [Other ''left a'', Other ''left sub'',
        NavigationComplete (exampleUrl [''a'', ''sub'']) [exampleRoute 1, exampleRoute 9],
        Other ''entered a'', Other ''entered sub'']"
proof -
  have l: "leavePasses exampleMatcher (exampleStore [''a'', ''sub''])"
    by (simp add: vocabulary_defs example_defs)
  have e: "enterPasses exampleMatcher (exampleStore [''a'', ''sub'']) (exampleUrl [''a'', ''sub''])"
    by (simp add: vocabulary_defs example_defs)
  show ?thesis
    using l e successful_pass_order [OF l e]
    by (simp add: vocabulary_defs example_defs)
qed

section \<open>A guard that refuses\<close>

text \<open>
  Claim C5. If a leave guard on the current hierarchy, or an enter guard on the
  candidate hierarchy, is called and returns \<^verbatim>\<open>false\<close>, the navigation aborts
  silently: the pass emits no action at all, and the RouterState after the pass is
  the state before it.
\<close>

theorem guard_false_aborts:
  assumes "leaveGuardAnswers rm st i (Inr (GBool False)) \<or>
           enterGuardAnswers rm st nextUrl i (Inr (GBool False))"
  shows "pipeline rm st nextUrl = Inr [] \<and>
         commitPass (routerSlice st) (pipeline rm st nextUrl) = routerSlice st"
proof -
  have "pipeline rm st nextUrl = Inr []"
    using assms
  proof
    assume "leaveGuardAnswers rm st i (Inr (GBool False))"
    then have g: "guardAnswers interceptLeave dispatchOnLeave rm st (url (routerSlice st))
                    (routes (routerSlice st)) i (Inr (GBool False))"
      by (simp add: leaveGuardAnswers_def)
    have "leaveLoop rm st (url (routerSlice st)) (routes (routerSlice st)) [] =
          Inr (Returned [])"
      unfolding leaveLoop_def by (simp add: hookLoop_guard_answers [OF g])
    then show ?thesis by (rule pipeline_leave_returned)
  next
    assume a: "enterGuardAnswers rm st nextUrl i (Inr (GBool False))"
    then have l: "leavePasses rm st"
      and g: "guardAnswers interceptEnter dispatchOnEnter rm st (url (routerSlice st))
                (match rm (path nextUrl)) i (Inr (GBool False))"
      by (simp_all add: enterGuardAnswers_def)
    have "enterLoop rm st (url (routerSlice st)) (match rm (path nextUrl)) [] =
          Inr (Returned [])"
      unfolding enterLoop_def by (simp add: hookLoop_guard_answers [OF g])
    with l show ?thesis by (rule pipeline_enter_returned)
  qed
  then show ?thesis by (simp add: commitPass_def)
qed

theorem guard_false_aborts_witness:
  "leaveGuardAnswers exampleMatcher (exampleStore [''a'', ''e'']) 1 (Inr (GBool False)) \<and>
   pipeline exampleMatcher (exampleStore [''a'', ''e'']) (exampleUrl [''k'']) = Inr [] \<and>
   commitPass (routerSlice (exampleStore [''a'', ''e'']))
     (pipeline exampleMatcher (exampleStore [''a'', ''e'']) (exampleUrl [''k''])) =
   routerSlice (exampleStore [''a'', ''e'']) \<and>
   enterGuardAnswers exampleMatcher (exampleStore [''a'']) (exampleUrl [''b'']) 0 (Inr (GBool False)) \<and>
   pipeline exampleMatcher (exampleStore [''a'']) (exampleUrl [''b'']) = Inr [] \<and>
   commitPass (routerSlice (exampleStore [''a'']))
     (pipeline exampleMatcher (exampleStore [''a'']) (exampleUrl [''b''])) =
   routerSlice (exampleStore [''a''])"
proof -
  have l: "leaveGuardAnswers exampleMatcher (exampleStore [''a'', ''e'']) 1 (Inr (GBool False))"
    by (simp add: vocabulary_defs example_defs)
  have e: "enterGuardAnswers exampleMatcher (exampleStore [''a'']) (exampleUrl [''b'']) 0
             (Inr (GBool False))"
    by (simp add: vocabulary_defs example_defs)
  show ?thesis
    using l e
      guard_false_aborts [of exampleMatcher "exampleStore [''a'', ''e'']" 1 "exampleUrl [''k'']"]
      guard_false_aborts [of exampleMatcher "exampleStore [''a'']" 0 "exampleUrl [''b'']"]
    by blast
qed

section \<open>A hook that throws\<close>

text \<open>
  Claim C6. If a guard or a dispatch hook that the pass calls throws, the exception
  leaves the pipeline and nothing is committed: the pass emits no action, so no
  \<^verbatim>\<open>NavigationComplete\<close>, and the RouterState stays at its value before the pass.
\<close>

theorem hook_throw_propagates:
  assumes "leaveGuardAnswers rm st i (Inl e) \<or> leaveDispatchThrows rm st i e \<or>
           enterGuardAnswers rm st nextUrl i (Inl e) \<or> enterDispatchThrows rm st nextUrl i e"
  shows "pipeline rm st nextUrl = Inl e \<and>
         (\<forall>actions. pipeline rm st nextUrl \<noteq> Inr actions) \<and>
         commitPass (routerSlice st) (pipeline rm st nextUrl) = routerSlice st"
proof -
  consider (lg) "leaveGuardAnswers rm st i (Inl e)" | (ld) "leaveDispatchThrows rm st i e"
    | (eg) "enterGuardAnswers rm st nextUrl i (Inl e)" | (ed) "enterDispatchThrows rm st nextUrl i e"
    using assms by blast
  then have "pipeline rm st nextUrl = Inl e"
  proof cases
    case lg
    then have g: "guardAnswers interceptLeave dispatchOnLeave rm st (url (routerSlice st))
                    (routes (routerSlice st)) i (Inl e)"
      by (simp add: leaveGuardAnswers_def)
    have "leaveLoop rm st (url (routerSlice st)) (routes (routerSlice st)) [] = Inl e"
      unfolding leaveLoop_def by (simp add: hookLoop_guard_answers [OF g])
    then show ?thesis by (rule pipeline_leave_throws)
  next
    case ld
    then have d: "dispatchThrows interceptLeave dispatchOnLeave rm st (url (routerSlice st))
                    (routes (routerSlice st)) i e"
      by (simp add: leaveDispatchThrows_def)
    have "leaveLoop rm st (url (routerSlice st)) (routes (routerSlice st)) [] = Inl e"
      unfolding leaveLoop_def by (rule hookLoop_dispatch_throws [OF d])
    then show ?thesis by (rule pipeline_leave_throws)
  next
    case eg
    then have l: "leavePasses rm st"
      and g: "guardAnswers interceptEnter dispatchOnEnter rm st (url (routerSlice st))
                (match rm (path nextUrl)) i (Inl e)"
      by (simp_all add: enterGuardAnswers_def)
    have "enterLoop rm st (url (routerSlice st)) (match rm (path nextUrl)) [] = Inl e"
      unfolding enterLoop_def by (simp add: hookLoop_guard_answers [OF g])
    with l show ?thesis by (rule pipeline_enter_throws)
  next
    case ed
    then have l: "leavePasses rm st"
      and d: "dispatchThrows interceptEnter dispatchOnEnter rm st (url (routerSlice st))
                (match rm (path nextUrl)) i e"
      by (simp_all add: enterDispatchThrows_def)
    have "enterLoop rm st (url (routerSlice st)) (match rm (path nextUrl)) [] = Inl e"
      unfolding enterLoop_def by (rule hookLoop_dispatch_throws [OF d])
    with l show ?thesis by (rule pipeline_enter_throws)
  qed
  then show ?thesis by (simp add: commitPass_def)
qed

theorem hook_throw_propagates_witness:
  "leaveGuardAnswers exampleMatcher (exampleStore [''a'', ''t'']) 1 (Inl (Thrown ''guard failed'')) \<and>
   pipeline exampleMatcher (exampleStore [''a'', ''t'']) (exampleUrl [''k'']) =
     Inl (Thrown ''guard failed'') \<and>
   commitPass (routerSlice (exampleStore [''a'', ''t'']))
     (pipeline exampleMatcher (exampleStore [''a'', ''t'']) (exampleUrl [''k''])) =
   routerSlice (exampleStore [''a'', ''t'']) \<and>
   enterDispatchThrows exampleMatcher (exampleStore [''a'']) (exampleUrl [''d'']) 0 (Thrown ''boom'') \<and>
   pipeline exampleMatcher (exampleStore [''a'']) (exampleUrl [''d'']) = Inl (Thrown ''boom'') \<and>
   commitPass (routerSlice (exampleStore [''a'']))
     (pipeline exampleMatcher (exampleStore [''a'']) (exampleUrl [''d''])) =
   routerSlice (exampleStore [''a''])"
proof -
  have l: "leaveGuardAnswers exampleMatcher (exampleStore [''a'', ''t'']) 1
             (Inl (Thrown ''guard failed''))"
    by (simp add: vocabulary_defs example_defs)
  have e: "enterDispatchThrows exampleMatcher (exampleStore [''a'']) (exampleUrl [''d'']) 0
             (Thrown ''boom'')"
    by (simp add: vocabulary_defs example_defs)
  show ?thesis
    using l e
      hook_throw_propagates [of exampleMatcher "exampleStore [''a'', ''t'']" 1
        "Thrown ''guard failed''" "exampleUrl [''k'']"]
      hook_throw_propagates [of exampleMatcher "exampleStore [''a'']" 0 "Thrown ''boom''"
        "exampleUrl [''d'']"]
    by blast
qed

section \<open>A guard that redirects\<close>

text \<open>
  Claim C9. Whenever a guard that the pass calls returns a Url, the only action the
  pass emits is the redirect trigger for that Url, \<^verbatim>\<open>InterceptLeaveRedirect\<close> from the
  leave phase and \<^verbatim>\<open>InterceptEnterRedirect\<close> from the enter phase: the dispatch
  actions collected before are not emitted.
\<close>

theorem guard_url_sole_redirect:
  "(leaveGuardAnswers rm st i (Inr (GUrl u)) \<longrightarrow>
      pipeline rm st nextUrl = Inr [InterceptLeaveRedirect u]) \<and>
   (enterGuardAnswers rm st nextUrl i (Inr (GUrl u)) \<longrightarrow>
      pipeline rm st nextUrl = Inr [InterceptEnterRedirect u])"
proof (intro conjI impI)
  assume "leaveGuardAnswers rm st i (Inr (GUrl u))"
  then have g: "guardAnswers interceptLeave dispatchOnLeave rm st (url (routerSlice st))
                  (routes (routerSlice st)) i (Inr (GUrl u))"
    by (simp add: leaveGuardAnswers_def)
  have "leaveLoop rm st (url (routerSlice st)) (routes (routerSlice st)) [] =
        Inr (Returned [InterceptLeaveRedirect u])"
    unfolding leaveLoop_def by (simp add: hookLoop_guard_answers [OF g])
  then show "pipeline rm st nextUrl = Inr [InterceptLeaveRedirect u]"
    by (rule pipeline_leave_returned)
next
  assume "enterGuardAnswers rm st nextUrl i (Inr (GUrl u))"
  then have l: "leavePasses rm st"
    and g: "guardAnswers interceptEnter dispatchOnEnter rm st (url (routerSlice st))
              (match rm (path nextUrl)) i (Inr (GUrl u))"
    by (simp_all add: enterGuardAnswers_def)
  have "enterLoop rm st (url (routerSlice st)) (match rm (path nextUrl)) [] =
        Inr (Returned [InterceptEnterRedirect u])"
    unfolding enterLoop_def by (simp add: hookLoop_guard_answers [OF g])
  with l show "pipeline rm st nextUrl = Inr [InterceptEnterRedirect u]"
    by (rule pipeline_enter_returned)
qed

theorem guard_url_sole_redirect_witness:
  "leaveGuardAnswers exampleMatcher (exampleStore [''a'', ''f'']) 1 (Inr (GUrl (exampleUrl [''a'']))) \<and>
   collected dispatchOnLeave exampleMatcher (exampleStore [''a'', ''f'']) (exampleUrl [''a'', ''f''])
     (take 1 (routes (routerSlice (exampleStore [''a'', ''f''])))) = [Other ''left a''] \<and>
   pipeline exampleMatcher (exampleStore [''a'', ''f'']) (exampleUrl [''k'']) =
     Inr [InterceptLeaveRedirect (exampleUrl [''a''])] \<and>
   enterGuardAnswers exampleMatcher (exampleStore [''a'']) (exampleUrl [''a'', ''c'']) 1
     (Inr (GUrl (exampleUrl [''a'']))) \<and>
   leaveActions exampleMatcher (exampleStore [''a'']) = [Other ''left a''] \<and>
   pipeline exampleMatcher (exampleStore [''a'']) (exampleUrl [''a'', ''c'']) =
     Inr [InterceptEnterRedirect (exampleUrl [''a''])]"
proof -
  have l: "leaveGuardAnswers exampleMatcher (exampleStore [''a'', ''f'']) 1
             (Inr (GUrl (exampleUrl [''a''])))"
    by (simp add: vocabulary_defs example_defs)
  have e: "enterGuardAnswers exampleMatcher (exampleStore [''a'']) (exampleUrl [''a'', ''c'']) 1
             (Inr (GUrl (exampleUrl [''a''])))"
    by (simp add: vocabulary_defs example_defs)
  have c1: "collected dispatchOnLeave exampleMatcher (exampleStore [''a'', ''f''])
              (exampleUrl [''a'', ''f''])
              (take 1 (routes (routerSlice (exampleStore [''a'', ''f''])))) = [Other ''left a'']"
    by (simp add: vocabulary_defs example_defs)
  have c2: "leaveActions exampleMatcher (exampleStore [''a'']) = [Other ''left a'']"
    by (simp add: vocabulary_defs example_defs)
  show ?thesis
    using l e c1 c2
      guard_url_sole_redirect [of exampleMatcher "exampleStore [''a'', ''f'']" 1
        "exampleUrl [''a'']" "exampleUrl [''k'']"]
      guard_url_sole_redirect [of exampleMatcher "exampleStore [''a'']" 1
        "exampleUrl [''a'']" "exampleUrl [''a'', ''c'']"]
    by blast
qed

section \<open>A route whose config is missing\<close>

text \<open>
  Claim C10. For a route whose \<^verbatim>\<open>routeConfigId\<close> has no entry in the registry
  (\<^verbatim>\<open>getRouteConfig\<close> returns \<^verbatim>\<open>undefined\<close>), none of the four hooks is found, and
  both loops go on as if the route were not in the hierarchy: the route neither
  aborts, redirects nor faults the pass, and nothing is collected for it.
\<close>

theorem missing_config_skipped:
  assumes "getRouteConfig rm (routeConfigId route) = None"
  shows "hookOf interceptLeave rm route = None \<and> hookOf dispatchOnLeave rm route = None \<and>
         hookOf interceptEnter rm route = None \<and> hookOf dispatchOnEnter rm route = None \<and>
         leaveLoop rm st prevUrl (pre @ route # post) acc =
           leaveLoop rm st prevUrl (pre @ post) acc \<and>
         enterLoop rm st prevUrl (pre @ route # post) acc =
           enterLoop rm st prevUrl (pre @ post) acc"
proof -
  have il: "hookOf interceptLeave rm route = None" and dl: "hookOf dispatchOnLeave rm route = None"
    and ie: "hookOf interceptEnter rm route = None" and de: "hookOf dispatchOnEnter rm route = None"
    using assms by (simp_all add: hookOf_def)
  show ?thesis
    unfolding leaveLoop_def enterLoop_def
    using il dl ie de hookLoop_skip [OF il dl] hookLoop_skip [OF ie de] by simp
qed

theorem missing_config_skipped_witness:
  "getRouteConfig exampleMatcher (routeConfigId (exampleRoute 99)) = None \<and>
   leaveLoop exampleMatcher (exampleStore [''a'']) (exampleUrl [''a''])
     [exampleRoute 1, exampleRoute 99, exampleRoute 9] [] =
     Inr (Collected [Other ''left a'', Other ''left sub'']) \<and>
   enterLoop exampleMatcher (exampleStore [''a'']) (exampleUrl [''a''])
     [exampleRoute 1, exampleRoute 99, exampleRoute 9] [] =
     Inr (Collected [Other ''entered a'', Other ''entered sub''])"
proof -
  have h: "getRouteConfig exampleMatcher (routeConfigId (exampleRoute 99)) = None"
    by (simp add: example_defs)
  have l: "leaveLoop exampleMatcher (exampleStore [''a'']) (exampleUrl [''a''])
             [exampleRoute 1, exampleRoute 9] [] =
           Inr (Collected [Other ''left a'', Other ''left sub''])"
    by (simp add: leaveLoop_def guardStep_def dispatchStep_def example_defs)
  have e: "enterLoop exampleMatcher (exampleStore [''a'']) (exampleUrl [''a''])
             [exampleRoute 1, exampleRoute 9] [] =
           Inr (Collected [Other ''entered a'', Other ''entered sub''])"
    by (simp add: enterLoop_def guardStep_def dispatchStep_def example_defs)
  show ?thesis
    using h l e
      missing_config_skipped [OF h, of "exampleStore [''a'']" "exampleUrl [''a'']"
        "[exampleRoute 1]" "[exampleRoute 9]" "[]"]
    by simp
qed

section \<open>Bootstrap\<close>

text \<open>
  Claim C8. At construction the router synthesizes exactly one trigger: the bootstrap
  reaction emits a single \<^verbatim>\<open>Navigate\<close> carrying \<^verbatim>\<open>createUrl()\<close>, the url of the initial
  state, so one trigger and no other is pending when the router starts.
\<close>

theorem bootstrap_single_navigate:
  "(bootstrapReaction createUrl :: ('d, 'a) Action list) =
     [Navigate (url (initialState createUrl :: 'd RouterState))] \<and>
   pending (initialMachine otherReducer createUrl others :: ('d, 'a, 'x) Machine) =
     [Navigate createUrl] \<and>
   routerSlice (storeState (initialMachine otherReducer createUrl others :: ('d, 'a, 'x) Machine)) =
     initialState createUrl"
  by (simp add: bootstrapReaction_def initialState_def initialMachine_def dispatchAll_def
      storeReduce_def isTrigger_def)

section \<open>Navigation without guards\<close>

text \<open>
  Claim C7, as stated: with no \<^verbatim>\<open>interceptLeave\<close> or \<^verbatim>\<open>interceptEnter\<close> hook on any
  current or candidate route, the state after the pass for \<open>u\<close> has url \<open>u\<close>. This fails
  on the example registry: the page \<^verbatim>\<open>/g\<close> has no guard, its \<^verbatim>\<open>dispatchOnEnter\<close> hook
  returns a \<^verbatim>\<open>NavigationComplete\<close> for \<^verbatim>\<open>/b\<close>, the pass emits it after its own commit,
  and the reducer folds it last.
\<close>

theorem unguarded_navigation_counterexample:
  "routes (routerSlice exampleInitialStore) = [] \<and>
   match exampleMatcher (path (exampleUrl [''g''])) = [exampleRoute 7] \<and>
   hookOf interceptLeave exampleMatcher (exampleRoute 7) = None \<and>
   hookOf interceptEnter exampleMatcher (exampleRoute 7) = None \<and>
   pipeline exampleMatcher exampleInitialStore (exampleUrl [''g'']) =
     Inr [NavigationComplete (exampleUrl [''g'']) [exampleRoute 7],
          NavigationComplete (exampleUrl [''b'']) []] \<and>
   url (commitPass (routerSlice exampleInitialStore)
          (pipeline exampleMatcher exampleInitialStore (exampleUrl [''g'']))) \<noteq> exampleUrl [''g'']"
  by (simp add: commitPass_def pipeline_def leaveLoop_def enterLoop_def guardStep_def
      dispatchStep_def example_defs)

text \<open>
  Claim C7, amended. If no current route has an \<^verbatim>\<open>interceptLeave\<close> hook, no candidate
  route for \<open>u\<close> has an \<^verbatim>\<open>interceptEnter\<close> hook, and no dispatch hook throws, the pass
  for \<open>u\<close> completes with the commit for \<open>u\<close> between the leave and the enter actions,
  and the state once that commit is folded has url \<open>u\<close> and the routes matched for
  \<open>u\<close>; it is still the state after the whole pass when no \<^verbatim>\<open>dispatchOnEnter\<close> hook
  returned a \<^verbatim>\<open>NavigationComplete\<close> of its own.
\<close>

theorem unguarded_navigation_commits:
  assumes "noGuards rm st u" and "dispatchHooksReturn rm st u"
  shows "pipeline rm st u =
           Inr (leaveActions rm st @ [NavigationComplete u (match rm (path u))] @
                enterActions rm st u) \<and>
         foldl routerReducer (routerSlice st)
           (leaveActions rm st @ [NavigationComplete u (match rm (path u))]) =
           \<lparr>url = u, routes = match rm (path u)\<rparr> \<and>
         (noCommitIn (enterActions rm st u) \<longrightarrow>
            commitPass (routerSlice st) (pipeline rm st u) =
            \<lparr>url = u, routes = match rm (path u)\<rparr>)"
proof -
  have l: "leavePasses rm st"
    using assms
    by (simp add: noGuards_def dispatchHooksReturn_def leavePasses_def passes_def guardAllows_def)
  have e: "enterPasses rm st u"
    using assms
    by (simp add: noGuards_def dispatchHooksReturn_def enterPasses_def passes_def guardAllows_def)
  have p: "pipeline rm st u =
           Inr (leaveActions rm st @ [NavigationComplete u (match rm (path u))] @
                enterActions rm st u)"
    by (rule pipeline_passes [OF l e])
  have c: "foldl routerReducer (routerSlice st)
             (leaveActions rm st @ [NavigationComplete u (match rm (path u))]) =
           \<lparr>url = u, routes = match rm (path u)\<rparr>"
    by simp
  have "commitPass (routerSlice st) (pipeline rm st u) = \<lparr>url = u, routes = match rm (path u)\<rparr>"
    if "noCommitIn (enterActions rm st u)"
    unfolding p commitPass_def
    using foldl_through_commit [of "enterActions rm st u"] that by (simp add: noCommitIn_def)
  with p c show ?thesis by blast
qed

theorem unguarded_navigation_commits_witness:
  "noGuards exampleMatcher (exampleStore [''k'']) (exampleUrl [''a'', ''sub'']) \<and>
   dispatchHooksReturn exampleMatcher (exampleStore [''k'']) (exampleUrl [''a'', ''sub'']) \<and>
   noCommitIn (enterActions exampleMatcher (exampleStore [''k'']) (exampleUrl [''a'', ''sub''])) \<and>
   pipeline exampleMatcher (exampleStore [''k'']) (exampleUrl [''a'', ''sub'']) =
     Inr [NavigationComplete (exampleUrl [''a'', ''sub'']) [exampleRoute 1, exampleRoute 9],
          Other ''entered a'', Other ''entered sub''] \<and>
   commitPass (routerSlice (exampleStore [''k'']))
     (pipeline exampleMatcher (exampleStore [''k'']) (exampleUrl [''a'', ''sub''])) =
   \<lparr>url = exampleUrl [''a'', ''sub''], routes = [exampleRoute 1, exampleRoute 9]\<rparr>"
proof -
  have g: "noGuards exampleMatcher (exampleStore [''k'']) (exampleUrl [''a'', ''sub''])"
    by (simp add: noGuards_def example_defs)
  have d: "dispatchHooksReturn exampleMatcher (exampleStore [''k'']) (exampleUrl [''a'', ''sub''])"
    by (simp add: dispatchHooksReturn_def vocabulary_defs example_defs)
  have n: "noCommitIn (enterActions exampleMatcher (exampleStore [''k''])
             (exampleUrl [''a'', ''sub'']))"
    by (simp add: noCommitIn_def vocabulary_defs example_defs)
  have m: "match exampleMatcher (path (exampleUrl [''a'', ''sub''])) =
           [exampleRoute 1, exampleRoute 9]"
    by (simp add: example_defs)
  have la: "leaveActions exampleMatcher (exampleStore [''k'']) = []"
    by (simp add: vocabulary_defs example_defs)
  have ea: "enterActions exampleMatcher (exampleStore [''k'']) (exampleUrl [''a'', ''sub'']) =
            [Other ''entered a'', Other ''entered sub'']"
    by (simp add: vocabulary_defs example_defs)
  show ?thesis
    using g d n unguarded_navigation_commits [OF g d] unfolding m la ea
    by (simp add: commitPass_def)
qed

section \<open>The invariant of the committed state\<close>

text \<open>
  Claim C1, as stated: in every RouterState the routes are what the matcher gives for
  the state's url. This fails for the state the reducer is created with, whose routes
  are empty whatever the matcher gives for \<^verbatim>\<open>createUrl()\<close> (here the root route), and
  for the state after the reducer has folded a \<^verbatim>\<open>NavigationComplete\<close> that the pipeline
  did not build.
\<close>

theorem routes_matched_counterexample:
  "\<not> routesMatched exampleMatcher (initialState (exampleUrl [])) \<and>
   \<not> routesMatched exampleMatcher
       (routerReducer (routerSlice (exampleStore [''k'']))
          (NavigationComplete (exampleUrl [''a'']) [] :: (unit, string) Action))"
  by (simp add: routesMatched_def example_defs)

text \<open>
  Claim C1, amended. The reducer replaces url and routes together, by the payload of
  a \<^verbatim>\<open>NavigationComplete\<close>, and leaves the state unchanged on every other action. The
  commit a pass builds carries the routes matched for its url: when no dispatch hook
  of the pass returns a \<^verbatim>\<open>NavigationComplete\<close> of its own, every state the reducer goes
  through while it folds the actions of the pass is either the state before the pass
  or the target url with the routes matched for it, which satisfies the invariant.
  The initial state satisfies it exactly when the matcher gives no route for the path
  of \<^verbatim>\<open>createUrl()\<close>.
\<close>

theorem commit_keeps_routes_matched:
  "routerReducer state (NavigationComplete u rs) = \<lparr>url = u, routes = rs\<rparr> \<and>
   (\<not> isCommit action \<longrightarrow> routerReducer state action = state) \<and>
   routesMatched rm \<lparr>url = nextUrl, routes = match rm (path nextUrl)\<rparr> \<and>
   routesMatched rm (initialState createUrl) = (match rm (path createUrl) = []) \<and>
   (noCommitIn (leaveActions rm st @ enterActions rm st nextUrl) \<and>
    pipeline rm st nextUrl = Inr actions \<longrightarrow>
      foldl routerReducer (routerSlice st) (take k actions) = routerSlice st \<or>
      foldl routerReducer (routerSlice st) (take k actions) =
        \<lparr>url = nextUrl, routes = match rm (path nextUrl)\<rparr>)"
proof -
  have fold: "foldl routerReducer (routerSlice st) (take k actions) = routerSlice st \<or>
              foldl routerReducer (routerSlice st) (take k actions) =
                \<lparr>url = nextUrl, routes = match rm (path nextUrl)\<rparr>"
    if nc: "\<forall>a \<in> set (leaveActions rm st @ enterActions rm st nextUrl). \<not> isCommit a"
      and p: "pipeline rm st nextUrl = Inr actions"
  proof -
    consider (none) "actions = []"
      | (leave) v where "actions = [InterceptLeaveRedirect v]"
      | (enter) v where "actions = [InterceptEnterRedirect v]"
      | (commit) "actions = leaveActions rm st @
                    [NavigationComplete nextUrl (match rm (path nextUrl))] @
                    enterActions rm st nextUrl"
      using pipeline_outcome [of rm st nextUrl] p by auto
    then show ?thesis
    proof cases
      case none
      then show ?thesis by simp
    next
      case leave
      then have "\<forall>a \<in> set (take k actions). \<not> isCommit a"
        by (cases k) simp_all
      then show ?thesis by (simp add: foldl_no_commit)
    next
      case enter
      then have "\<forall>a \<in> set (take k actions). \<not> isCommit a"
        by (cases k) simp_all
      then show ?thesis by (simp add: foldl_no_commit)
    next
      case commit
      show ?thesis
      proof (cases "k \<le> length (leaveActions rm st)")
        case True
        then have "take k actions = take k (leaveActions rm st)"
          using commit by simp
        moreover have "\<forall>a \<in> set (take k (leaveActions rm st)). \<not> isCommit a"
          using nc by (auto dest: in_set_takeD)
        ultimately show ?thesis by (simp add: foldl_no_commit)
      next
        case False
        then obtain j where j: "k - length (leaveActions rm st) = Suc j"
          by (cases "k - length (leaveActions rm st)") auto
        have t: "take k actions =
                 leaveActions rm st @ [NavigationComplete nextUrl (match rm (path nextUrl))] @
                 take j (enterActions rm st nextUrl)"
          using commit False j by simp
        have "\<forall>a \<in> set (take j (enterActions rm st nextUrl)). \<not> isCommit a"
          using nc by (auto dest: in_set_takeD)
        from foldl_through_commit [OF this] show ?thesis
          unfolding t by simp
      qed
    qed
  qed
  have init: "routesMatched rm (initialState createUrl) = (match rm (path createUrl) = [])"
    by (auto simp: routesMatched_def initialState_def)
  show ?thesis
    using fold init by (simp add: routerReducer_other routesMatched_def noCommitIn_def)
qed

theorem commit_keeps_routes_matched_witness:
  "\<not> isCommit (Navigate (exampleUrl [''k'']) :: (unit, string) Action) \<and>
   routerReducer (routerSlice (exampleStore [''a'']))
     (Navigate (exampleUrl [''k'']) :: (unit, string) Action) =
     routerSlice (exampleStore [''a'']) \<and>
   noCommitIn (leaveActions exampleMatcher (exampleStore [''a'']) @
               enterActions exampleMatcher (exampleStore [''a'']) (exampleUrl [''k''])) \<and>
   pipeline exampleMatcher (exampleStore [''a'']) (exampleUrl [''k'']) =
     Inr [Other ''left a'', NavigationComplete (exampleUrl [''k'']) [exampleRoute 10]] \<and>
   foldl routerReducer (routerSlice (exampleStore [''a'']))
     (take 2 [Other ''left a'', NavigationComplete (exampleUrl [''k'']) [exampleRoute 10]]) =
     \<lparr>url = exampleUrl [''k''], routes = match exampleMatcher (path (exampleUrl [''k'']))\<rparr>"
proof -
  have a: "\<not> isCommit (Navigate (exampleUrl [''k'']) :: (unit, string) Action)"
    by simp
  have n: "noCommitIn (leaveActions exampleMatcher (exampleStore [''a'']) @
               enterActions exampleMatcher (exampleStore [''a'']) (exampleUrl [''k'']))"
    by (simp add: noCommitIn_def vocabulary_defs example_defs)
  have p: "pipeline exampleMatcher (exampleStore [''a'']) (exampleUrl [''k'']) =
     Inr [Other ''left a'', NavigationComplete (exampleUrl [''k'']) [exampleRoute 10]]"
    by (simp add: pipeline_def leaveLoop_def enterLoop_def guardStep_def dispatchStep_def
        example_defs)
  have f: "foldl routerReducer (routerSlice (exampleStore [''a'']))
     (take 2 [Other ''left a'', NavigationComplete (exampleUrl [''k'']) [exampleRoute 10]]) \<noteq>
     routerSlice (exampleStore [''a''])"
    by (simp add: example_defs)
  show ?thesis
    using a n p f
      commit_keeps_routes_matched [of "routerSlice (exampleStore [''a''])" "exampleUrl [''k'']"
        "[]" "Navigate (exampleUrl [''k'']) :: (unit, string) Action" exampleMatcher
        "exampleUrl [''k'']" "exampleUrl []" "exampleStore [''a'']"
        "[Other ''left a'', NavigationComplete (exampleUrl [''k'']) [exampleRoute 10]]" 2]
    by blast
qed

section \<open>Triggers dispatched back to back\<close>

lemma step_trigger:
  assumes "pending m = trigger # rest" and "triggerUrl trigger = Some nextUrl"
  shows "step otherReducer rm m =
         (case pipeline rm (storeState m) nextUrl of
            Inl e \<Rightarrow> Some (Inl e)
          | Inr actions \<Rightarrow>
              Some (Inr \<lparr>storeState = foldl (storeReduce otherReducer) (storeState m) actions,
                          pending = rest @ filter isTrigger actions\<rparr>))"
  using assms by (simp add: step_def dispatchAll_def split: sum.splits)

text \<open>
  Claim C3, as stated: of two triggers A and B pending together, everything A causes,
  its redirect re-entries included, runs before B's pipeline begins. This fails on
  the example registry: A navigates to \<^verbatim>\<open>/c\<close>, whose enter guard redirects to \<^verbatim>\<open>/a\<close>,
  and B navigates to \<^verbatim>\<open>/k\<close>. A's pass leaves its redirect trigger pending behind B, so
  the consumer takes A, then B, and A's re-entry last.
\<close>

theorem serialized_passes_counterexample:
  "step noOtherReducer exampleMatcher
     \<lparr>storeState = exampleInitialStore,
      pending = [Navigate (exampleUrl [''c'']), Navigate (exampleUrl [''k''])]\<rparr> =
   Some (Inr \<lparr>storeState = exampleInitialStore,
               pending = [Navigate (exampleUrl [''k'']),
                          InterceptEnterRedirect (exampleUrl [''a''])]\<rparr>) \<and>
   fst (run (Suc (Suc (Suc 0))) noOtherReducer exampleMatcher
     \<lparr>storeState = exampleInitialStore,
      pending = [Navigate (exampleUrl [''c'']), Navigate (exampleUrl [''k''])]\<rparr>) =
   [Navigate (exampleUrl [''c'']), Navigate (exampleUrl [''k'']),
    InterceptEnterRedirect (exampleUrl [''a''])]"
  by (simp add: step_def dispatchAll_def storeReduce_def isTrigger_def noOtherReducer_def
      pipeline_def leaveLoop_def enterLoop_def guardStep_def dispatchStep_def example_defs)

text \<open>
  Claim C3, amended. Triggers are taken one pass at a time in the order they were
  dispatched. With A pending ahead of B, A's pass runs on the store as it is, every
  action it emits is reduced, and only then B's pass begins, reading the store as A's
  pass left it; a trigger that A's pass emitted (a redirect re-entry) waits behind B
  and everything dispatched before it.
\<close>

theorem serialized_passes:
  assumes "pending m = A # B # q" and "triggerUrl A = Some ua" and "triggerUrl B = Some ub"
    and "pipeline rm (storeState m) ua = Inr actions"
  shows "step otherReducer rm m =
           Some (Inr \<lparr>storeState = foldl (storeReduce otherReducer) (storeState m) actions,
                       pending = B # q @ filter isTrigger actions\<rparr>) \<and>
         routerSlice (foldl (storeReduce otherReducer) (storeState m) actions) =
           commitPass (routerSlice (storeState m)) (pipeline rm (storeState m) ua) \<and>
         step otherReducer rm
           \<lparr>storeState = foldl (storeReduce otherReducer) (storeState m) actions,
            pending = B # q @ filter isTrigger actions\<rparr> =
           (case pipeline rm (foldl (storeReduce otherReducer) (storeState m) actions) ub of
              Inl e \<Rightarrow> Some (Inl e)
            | Inr actions' \<Rightarrow>
                Some (Inr (dispatchAll otherReducer
                  \<lparr>storeState = foldl (storeReduce otherReducer) (storeState m) actions,
                   pending = q @ filter isTrigger actions\<rparr> actions')))"
proof -
  have first: "step otherReducer rm m =
           Some (Inr \<lparr>storeState = foldl (storeReduce otherReducer) (storeState m) actions,
                       pending = B # q @ filter isTrigger actions\<rparr>)"
    using step_trigger [OF assms(1) assms(2), of otherReducer rm] assms(4) by simp
  have state: "routerSlice (foldl (storeReduce otherReducer) (storeState m) actions) =
           commitPass (routerSlice (storeState m)) (pipeline rm (storeState m) ua)"
    using assms(4) by (simp add: commitPass_def routerSlice_foldl)
  have second: "step otherReducer rm
           \<lparr>storeState = foldl (storeReduce otherReducer) (storeState m) actions,
            pending = B # q @ filter isTrigger actions\<rparr> =
           (case pipeline rm (foldl (storeReduce otherReducer) (storeState m) actions) ub of
              Inl e \<Rightarrow> Some (Inl e)
            | Inr actions' \<Rightarrow>
                Some (Inr (dispatchAll otherReducer
                  \<lparr>storeState = foldl (storeReduce otherReducer) (storeState m) actions,
                   pending = q @ filter isTrigger actions\<rparr> actions')))"
    using assms(3) by (simp add: step_def split: sum.splits)
  from first state second show ?thesis by blast
qed

theorem serialized_passes_witness:
  "pipeline exampleMatcher exampleInitialStore (exampleUrl [''a'']) =
     Inr [NavigationComplete (exampleUrl [''a'']) [exampleRoute 1], Other ''entered a''] \<and>
   step noOtherReducer exampleMatcher
     \<lparr>storeState = exampleInitialStore,
      pending = [Navigate (exampleUrl [''a'']), Navigate (exampleUrl [''k''])]\<rparr> =
   Some (Inr \<lparr>storeState = exampleStore [''a''], pending = [Navigate (exampleUrl [''k''])]\<rparr>) \<and>
   step noOtherReducer exampleMatcher
     \<lparr>storeState = exampleStore [''a''], pending = [Navigate (exampleUrl [''k''])]\<rparr> =
   Some (Inr \<lparr>storeState = exampleStore [''k''], pending = []\<rparr>)"
proof -
  have p: "pipeline exampleMatcher
             (storeState \<lparr>storeState = exampleInitialStore,
                pending = [Navigate (exampleUrl [''a'']), Navigate (exampleUrl [''k''])]\<rparr>)
             (exampleUrl [''a'']) =
     Inr [NavigationComplete (exampleUrl [''a'']) [exampleRoute 1], Other ''entered a'']"
    by (simp add: pipeline_def leaveLoop_def enterLoop_def guardStep_def dispatchStep_def
        example_defs)
  have q: "pending \<lparr>storeState = exampleInitialStore,
             pending = [Navigate (exampleUrl [''a'']), Navigate (exampleUrl [''k''])]\<rparr> =
           Navigate (exampleUrl [''a'']) # Navigate (exampleUrl [''k'']) # []"
    by simp
  have a: "triggerUrl (Navigate (exampleUrl [''a'']) :: (unit, string) Action) =
           Some (exampleUrl [''a''])"
    and b: "triggerUrl (Navigate (exampleUrl [''k'']) :: (unit, string) Action) =
            Some (exampleUrl [''k''])"
    by simp_all
  show ?thesis
    using serialized_passes [OF q a b p, of noOtherReducer]
    by (simp add: dispatchAll_def storeReduce_def isTrigger_def noOtherReducer_def
        pipeline_def leaveLoop_def enterLoop_def guardStep_def dispatchStep_def commitPass_def
        example_defs)
qed

section \<open>A redirect from the enter phase\<close>

text \<open>
  Claim C4, as stated: if an enter guard called for \<open>u1\<close> returns the Url \<open>u2\<close>, the
  final committed url is \<open>u2\<close>. This fails on the example registry: the enter guard of
  \<^verbatim>\<open>/h\<close> redirects to \<^verbatim>\<open>/b\<close>, the pipeline is re-run for \<^verbatim>\<open>/b\<close>, whose own enter guard
  refuses, and the consumer comes to rest with the url it started from.
\<close>

theorem enter_redirect_counterexample:
  "enterGuardAnswers exampleMatcher exampleInitialStore (exampleUrl [''h'']) 0
     (Inr (GUrl (exampleUrl [''b'']))) \<and>
   run (Suc (Suc (Suc 0))) noOtherReducer exampleMatcher
     \<lparr>storeState = exampleInitialStore, pending = [Navigate (exampleUrl [''h''])]\<rparr> =
   ([Navigate (exampleUrl [''h'']), InterceptEnterRedirect (exampleUrl [''b''])],
    Inr \<lparr>storeState = exampleInitialStore, pending = []\<rparr>) \<and>
   url (routerSlice exampleInitialStore) \<noteq> exampleUrl [''b'']"
  by (simp add: step_def dispatchAll_def storeReduce_def isTrigger_def noOtherReducer_def
      pipeline_def leaveLoop_def enterLoop_def guardStep_def dispatchStep_def
      vocabulary_defs example_defs)

text \<open>
  Claim C4, amended. If an enter guard called for \<open>u1\<close> returns the Url \<open>u2\<close>, the pass
  commits nothing and emits only \<^verbatim>\<open>InterceptEnterRedirect\<close> for \<open>u2\<close>, which becomes a
  pending trigger of its own; with no other trigger pending, the next pass is the
  whole pipeline for \<open>u2\<close>, reading
  the url and the routes from the store anew. When that pass succeeds (both phases
  pass every route and no \<^verbatim>\<open>dispatchOnEnter\<close> hook returns a \<^verbatim>\<open>NavigationComplete\<close>),
  the committed url is \<open>u2\<close>, with the routes matched for it.
\<close>

theorem enter_redirect_reruns:
  assumes "enterGuardAnswers rm (storeState m) u1 i (Inr (GUrl u2))"
    and "pending m = [trigger]" and "triggerUrl trigger = Some u1"
  shows "let st1 = storeReduce otherReducer (storeState m) (InterceptEnterRedirect u2);
             m1 = \<lparr>storeState = st1, pending = [InterceptEnterRedirect u2]\<rparr>
         in pipeline rm (storeState m) u1 = Inr [InterceptEnterRedirect u2] \<and>
            step otherReducer rm m = Some (Inr m1) \<and>
            routerSlice st1 = routerSlice (storeState m) \<and>
            step otherReducer rm m1 =
              (case pipeline rm st1 u2 of
                 Inl e \<Rightarrow> Some (Inl e)
               | Inr actions \<Rightarrow>
                   Some (Inr \<lparr>storeState = foldl (storeReduce otherReducer) st1 actions,
                               pending = filter isTrigger actions\<rparr>)) \<and>
            (leavePasses rm st1 \<and> enterPasses rm st1 u2 \<and> noCommitIn (enterActions rm st1 u2) \<longrightarrow>
               (\<exists>m2. step otherReducer rm m1 = Some (Inr m2) \<and>
                     routerSlice (storeState m2) = \<lparr>url = u2, routes = match rm (path u2)\<rparr>))"
proof -
  define st1 where "st1 = storeReduce otherReducer (storeState m) (InterceptEnterRedirect u2)"
  define m1 :: "('a, 'b, 'c) Machine"
    where "m1 = \<lparr>storeState = st1, pending = [InterceptEnterRedirect u2]\<rparr>"
  have p: "pipeline rm (storeState m) u1 = Inr [InterceptEnterRedirect u2]"
    using guard_url_redirects_enter [OF assms(1)] .
  have s: "step otherReducer rm m = Some (Inr m1)"
    using step_trigger [OF assms(2) assms(3), of otherReducer rm] p
    by (simp add: m1_def st1_def isTrigger_def)
  have r: "routerSlice st1 = routerSlice (storeState m)"
    by (simp add: st1_def storeReduce_def)
  have s1: "step otherReducer rm m1 =
              (case pipeline rm st1 u2 of
                 Inl e \<Rightarrow> Some (Inl e)
               | Inr actions \<Rightarrow>
                   Some (Inr \<lparr>storeState = foldl (storeReduce otherReducer) st1 actions,
                               pending = filter isTrigger actions\<rparr>))"
    using step_trigger [of m1 "InterceptEnterRedirect u2" "[]" u2 otherReducer rm]
    by (simp add: m1_def split: sum.splits)
  have ok: "\<exists>m2. step otherReducer rm m1 = Some (Inr m2) \<and>
                 routerSlice (storeState m2) = \<lparr>url = u2, routes = match rm (path u2)\<rparr>"
    if l: "leavePasses rm st1" and e: "enterPasses rm st1 u2"
      and n: "noCommitIn (enterActions rm st1 u2)"
  proof -
    define actions where
      "actions = leaveActions rm st1 @ [NavigationComplete u2 (match rm (path u2))] @
                 enterActions rm st1 u2"
    have "\<forall>a \<in> set (enterActions rm st1 u2). \<not> isCommit a"
      using n by (simp add: noCommitIn_def)
    then have f: "foldl routerReducer (routerSlice st1) actions =
                  \<lparr>url = u2, routes = match rm (path u2)\<rparr>"
      unfolding actions_def by (rule foldl_through_commit)
    have "pipeline rm st1 u2 = Inr actions"
      unfolding actions_def by (rule pipeline_passes [OF l e])
    then have "step otherReducer rm m1 =
               Some (Inr \<lparr>storeState = foldl (storeReduce otherReducer) st1 actions,
                           pending = filter isTrigger actions\<rparr>)"
      unfolding s1 by simp
    moreover have "routerSlice (foldl (storeReduce otherReducer) st1 actions) =
                   \<lparr>url = u2, routes = match rm (path u2)\<rparr>"
      by (simp only: routerSlice_foldl f)
    ultimately show ?thesis by simp
  qed
  show ?thesis
    using p s r s1 ok unfolding Let_def st1_def [symmetric] m1_def [symmetric] by blast
qed

theorem enter_redirect_reruns_witness:
  "enterGuardAnswers exampleMatcher exampleInitialStore (exampleUrl [''c'']) 0
     (Inr (GUrl (exampleUrl [''a'']))) \<and>
   step noOtherReducer exampleMatcher
     \<lparr>storeState = exampleInitialStore, pending = [Navigate (exampleUrl [''c''])]\<rparr> =
   Some (Inr \<lparr>storeState = exampleInitialStore,
               pending = [InterceptEnterRedirect (exampleUrl [''a''])]\<rparr>) \<and>
   leavePasses exampleMatcher exampleInitialStore \<and>
   enterPasses exampleMatcher exampleInitialStore (exampleUrl [''a'']) \<and>
   noCommitIn (enterActions exampleMatcher exampleInitialStore (exampleUrl [''a''])) \<and>
   (\<exists>m2. step noOtherReducer exampleMatcher
           \<lparr>storeState = exampleInitialStore,
            pending = [InterceptEnterRedirect (exampleUrl [''a''])]\<rparr> = Some (Inr m2) \<and>
         routerSlice (storeState m2) =
           \<lparr>url = exampleUrl [''a''], routes = [exampleRoute 1]\<rparr>)"
proof -
  have g: "enterGuardAnswers exampleMatcher
             (storeState \<lparr>storeState = exampleInitialStore,
                pending = [Navigate (exampleUrl [''c''])]\<rparr>)
             (exampleUrl [''c'']) 0 (Inr (GUrl (exampleUrl [''a''])))"
    by (simp add: vocabulary_defs example_defs)
  have q: "pending \<lparr>storeState = exampleInitialStore,
             pending = [Navigate (exampleUrl [''c''])]\<rparr> = [Navigate (exampleUrl [''c''])]"
    by simp
  have t: "triggerUrl (Navigate (exampleUrl [''c'']) :: (unit, string) Action) =
           Some (exampleUrl [''c''])"
    by simp
  have l: "leavePasses exampleMatcher exampleInitialStore"
    by (simp add: vocabulary_defs example_defs)
  have e: "enterPasses exampleMatcher exampleInitialStore (exampleUrl [''a''])"
    by (simp add: vocabulary_defs example_defs)
  have n: "noCommitIn (enterActions exampleMatcher exampleInitialStore (exampleUrl [''a'']))"
    by (simp add: noCommitIn_def vocabulary_defs example_defs)
  show ?thesis
    using g l e n enter_redirect_reruns [OF g q t, of noOtherReducer]
    unfolding Let_def
    by (simp add: step_def dispatchAll_def storeReduce_def isTrigger_def noOtherReducer_def
        pipeline_def leaveLoop_def enterLoop_def guardStep_def dispatchStep_def example_defs)
qed

end
